theory Spec2Isabelle
  imports Main "HOL-Library.Word" "HOL-Library.Stream"
begin

section \<open>RSA blind signatures: the message owner and the signer\<close>

text \<open>
  The development embeds \<^verbatim>\<open>blind_signature/message_owner.py\<close> (class MessageOwner) and
  \<^verbatim>\<open>blind_signature/RSAbased_blind_signature/signer.py\<close> (generate_rsa_keys, class Signer).
  Python integers are unbounded, so they are \<^typ>\<open>int\<close>; Python's \<^verbatim>\<open>//\<close> and \<^verbatim>\<open>%\<close> are floor
  division and its remainder, which is what \<open>div\<close> and \<open>mod\<close> are on \<^typ>\<open>int\<close>, except that
  Python raises ZeroDivisionError on a zero divisor. Every exception the code can raise is a
  value \<open>Inl err\<close>.
\<close>

subsection \<open>Python primitives\<close>

datatype error = ValueError | ZeroDivisionError | RecursionError

type_synonym byte = "8 word"

text \<open>\<^verbatim>\<open>a % b\<close> on Python integers.\<close>

definition py_mod :: "int \<Rightarrow> int \<Rightarrow> error + int" where
  "py_mod a b = (if b = 0 then Inl ZeroDivisionError else Inr (a mod b))"

text \<open>
  The inverse that the built-in \<^verbatim>\<open>pow\<close> substitutes for the base when the exponent is
  negative (Python 3.8 and later): defined for a modulus \<open>n > 1\<close>, it raises ValueError
  when the base is not invertible.
\<close>

definition py_invmod :: "int \<Rightarrow> int \<Rightarrow> error + int" where
  "py_invmod a n =
     (if gcd a n \<noteq> 1 then Inl ValueError
      else Inr (fst (bezw (nat (a mod n)) (nat n)) mod n))"

text \<open>
  The built-in \<^verbatim>\<open>pow(base, exp, mod)\<close> on integers: a zero modulus raises ValueError, a
  modulus of absolute value one gives 0, a negative exponent replaces the base by its
  inverse modulo \<open>\<bar>mod\<bar>\<close>, and the result has the sign of the modulus.
\<close>

definition py_pow :: "int \<Rightarrow> int \<Rightarrow> int \<Rightarrow> error + int" where
  "py_pow b x n =
     (if n = 0 then Inl ValueError
      else if \<bar>n\<bar> = 1 then Inr 0
      else if 0 \<le> x then Inr (b ^ nat x mod n)
      else (case py_invmod b \<bar>n\<bar> of
              Inl err \<Rightarrow> Inl err
            | Inr i \<Rightarrow> Inr (i ^ nat (- x) mod n)))"

text \<open>
  \<^verbatim>\<open>random.randint(a, b)\<close>: ValueError on an empty range, otherwise some integer of
  \<open>[a, b]\<close>. The generator is a stream of raw draws (natural numbers); a raw draw \<open>raw\<close>
  selects the element \<open>a + raw mod (b - a + 1)\<close>, so every element of the range can be
  drawn and nothing outside it can.
\<close>

definition randint :: "int \<Rightarrow> int \<Rightarrow> nat \<Rightarrow> error + int" where
  "randint a b raw = (if b < a then Inl ValueError else Inr (a + int raw mod (b - a + 1)))"

text \<open>
  Modelled from the spec: \<^verbatim>\<open>Crypto.Util.number.bytes_to_long\<close> is a library function that is
  not part of the sources; the digest is "interpreted as a big-endian unsigned integer".
\<close>

definition bytes_to_long :: "byte list \<Rightarrow> int" where
  "bytes_to_long bs = foldl (\<lambda>acc b. acc * 256 + uint b) 0 bs"

text \<open>
  A message is a Python \<^verbatim>\<open>str\<close> or \<^verbatim>\<open>bytes\<close>. A \<^verbatim>\<open>str\<close> is held as the characters of its
  UTF-8 encoding, so that \<^verbatim>\<open>message.encode()\<close> reads each character as a byte.
\<close>

datatype message = Str string | Bytes "byte list"

fun encode :: "message \<Rightarrow> byte list" where
  "encode (Str s) = map of_char s"
| "encode (Bytes bs) = bs"

text \<open>
  \<^verbatim>\<open>SHA256.new(message).digest()\<close> is a library function too; it is a parameter
  \<open>sha256_digest\<close> of everything that hashes. The two lines
  \<^verbatim>\<open>h = SHA256.new(message); m = bytes_to_long(h.digest())\<close> are:
\<close>

definition message_hash :: "(byte list \<Rightarrow> byte list) \<Rightarrow> message \<Rightarrow> int" where
  "message_hash sha256_digest msg = bytes_to_long (sha256_digest (encode msg))"

subsection \<open>MessageOwner: static helpers\<close>

text \<open>\<^verbatim>\<open>_gcd\<close>: \<^verbatim>\<open>while b: a, b = b, a % b\<close>, then \<^verbatim>\<open>return a\<close>.\<close>

function gcd' :: "int \<Rightarrow> int \<Rightarrow> int" where
  "gcd' a b = (if b = 0 then a else gcd' b (a mod b))"
  by pat_completeness auto
termination
  by (relation "measure (\<lambda>(a, b). nat \<bar>b\<bar>)") (auto simp: abs_mod_less)

declare gcd'.simps [simp del]

text \<open>
  \<^verbatim>\<open>_egcd\<close>, recursive as in the source; the recursive call's triple is read as \<open>(g, y, x)\<close>.
  Every call takes a frame of the interpreter's stack, and CPython raises RecursionError
  when a call would pass its recursion limit (1000 unless \<^verbatim>\<open>sys.setrecursionlimit\<close> is
  called, which the sources never do). The argument \<open>frames\<close> is the number of nested calls
  of \<^verbatim>\<open>_egcd\<close> that the limit still allows when \<^verbatim>\<open>_modinv\<close> calls it: under the default limit
  it is below 1000, since the callers hold frames of their own.
\<close>

fun egcd :: "nat \<Rightarrow> int \<Rightarrow> int \<Rightarrow> error + int \<times> int \<times> int" where
  "egcd 0 a b = Inl RecursionError"
| "egcd (Suc frames) a b =
     (if a = 0 then Inr (b, 0, 1)
      else (case egcd frames (b mod a) a of
              Inl err \<Rightarrow> Inl err
            | Inr (g, y, x) \<Rightarrow> Inr (g, x - (b div a) * y, y)))"

text \<open>
  \<^verbatim>\<open>_modinv\<close>: an exception of \<^verbatim>\<open>_egcd\<close> propagates; otherwise ValueError unless the first
  component is exactly 1, then \<^verbatim>\<open>x % m\<close>.
\<close>

definition modinv :: "nat \<Rightarrow> int \<Rightarrow> int \<Rightarrow> error + int" where
  "modinv frames a m =
     (case egcd frames a m of
        Inl err \<Rightarrow> Inl err
      | Inr (g, x, y) \<Rightarrow> if g \<noteq> 1 then Inl ValueError else py_mod x m)"

text \<open>
  The number of nested calls that \<^verbatim>\<open>_egcd(a, b)\<close> makes, the outermost one included. It is
  not part of the program: the statements below use it to say when the recursion fits
  the frames that are left.
\<close>

function egcd_depth :: "int \<Rightarrow> int \<Rightarrow> nat" where
  "egcd_depth a b = (if a = 0 then 1 else Suc (egcd_depth (b mod a) a))"
  by pat_completeness auto
termination
  by (relation "measure (\<lambda>(a, b). nat \<bar>a\<bar>)") (auto simp: abs_mod_less)

declare egcd_depth.simps [simp del]

subsection \<open>MessageOwner\<close>

record MessageOwner =
  owner_e :: int
  owner_N :: int

text \<open>\<^verbatim>\<open>__init__\<close>: \<^verbatim>\<open>self.e, self.N = signer_public_key\<close>.\<close>

definition new_owner :: "int \<times> int \<Rightarrow> MessageOwner" where
  "new_owner signer_public_key =
     (case signer_public_key of (e, N) \<Rightarrow> \<lparr>owner_e = e, owner_N = N\<rparr>)"

text \<open>The dictionary that \<^verbatim>\<open>blind_message\<close> returns.\<close>

record blind_data =
  blinded_msg :: int
  blind_r :: int
  original_hash :: int

text \<open>
  The search of lines 18 to 21: \<^verbatim>\<open>while True: r = random.randint(2, self.N - 1)\<close>, leaving
  the loop when \<^verbatim>\<open>self._gcd(r, self.N) == 1\<close>. The loop has no other exit, so it is a
  partial function: \<open>None\<close> is the run that never returns.
\<close>

partial_function (option) sample_r :: "int \<Rightarrow> nat stream \<Rightarrow> (error + int) option" where
  "sample_r N rnd =
     (case randint 2 (N - 1) (shd rnd) of
        Inl err \<Rightarrow> Some (Inl err)
      | Inr r \<Rightarrow> if gcd' r N = 1 then Some (Inr r) else sample_r N (stl rnd))"

text \<open>
  The value that \<^verbatim>\<open>random.randint(2, N - 1)\<close> returns on the raw draw \<open>raw\<close> when the
  range is not empty.
\<close>

definition draw :: "int \<Rightarrow> nat \<Rightarrow> int" where
  "draw N raw = 2 + int raw mod (N - 2)"

text \<open>Line 23 and the returned dictionary, for the factor \<open>r\<close> in hand.\<close>

definition blind_with :: "MessageOwner \<Rightarrow> int \<Rightarrow> int \<Rightarrow> error + blind_data" where
  "blind_with self m r =
     (case py_pow r (owner_e self) (owner_N self) of
        Inl err \<Rightarrow> Inl err
      | Inr p \<Rightarrow>
          (case py_mod (m * p) (owner_N self) of
             Inl err \<Rightarrow> Inl err
           | Inr blinded \<Rightarrow> Inr \<lparr>blinded_msg = blinded, blind_r = r, original_hash = m\<rparr>))"

text \<open>
  \<^verbatim>\<open>blind_message(self, message, r=None)\<close>. The optional argument is \<open>r_arg\<close>; the random
  generator is consulted only when it is \<open>None\<close>.
\<close>

definition blind_message ::
  "(byte list \<Rightarrow> byte list) \<Rightarrow> MessageOwner \<Rightarrow> message \<Rightarrow> int option \<Rightarrow> nat stream
     \<Rightarrow> (error + blind_data) option" where
  "blind_message sha256_digest self msg r_arg rnd =
     (let m = message_hash sha256_digest msg in
      case r_arg of
        Some r \<Rightarrow> Some (blind_with self m r)
      | None \<Rightarrow>
          (case sample_r (owner_N self) rnd of
             None \<Rightarrow> None
           | Some (Inl err) \<Rightarrow> Some (Inl err)
           | Some (Inr r) \<Rightarrow> Some (blind_with self m r)))"

text \<open>
  \<^verbatim>\<open>unblind_signature\<close>; \<open>frames\<close> is the number of nested calls of \<^verbatim>\<open>_egcd\<close> that the
  interpreter still allows, as above.
\<close>

definition unblind_signature :: "nat \<Rightarrow> MessageOwner \<Rightarrow> int \<Rightarrow> int \<Rightarrow> error + int" where
  "unblind_signature frames self blinded_signature r =
     (case modinv frames r (owner_N self) of
        Inl err \<Rightarrow> Inl err
      | Inr r_inv \<Rightarrow> py_mod (blinded_signature * r_inv) (owner_N self))"

definition verify ::
  "(byte list \<Rightarrow> byte list) \<Rightarrow> MessageOwner \<Rightarrow> message \<Rightarrow> int \<Rightarrow> error + bool" where
  "verify sha256_digest self msg signature =
     (let m = message_hash sha256_digest msg in
      case py_pow signature (owner_e self) (owner_N self) of
        Inl err \<Rightarrow> Inl err
      | Inr lhs \<Rightarrow>
          (case py_mod m (owner_N self) of
             Inl err \<Rightarrow> Inl err
           | Inr rhs \<Rightarrow> Inr (lhs = rhs)))"

subsection \<open>Signer and key generation\<close>

record Signer =
  signer_d :: int
  signer_N :: int

definition new_signer :: "int \<times> int \<Rightarrow> Signer" where
  "new_signer private_key = (case private_key of (d, N) \<Rightarrow> \<lparr>signer_d = d, signer_N = N\<rparr>)"

definition sign_blinded :: "Signer \<Rightarrow> int \<Rightarrow> error + int" where
  "sign_blinded self blinded_message = py_pow blinded_message (signer_d self) (signer_N self)"

text \<open>
  Modelled from the spec: \<^verbatim>\<open>Crypto.Util.number.inverse\<close> is a library function that is not
  part of the sources. The spec describes the step as \<open>d = mod_inverse(e, (p-1)(q-1))\<close>, the
  \<open>x\<close> in \<open>[0, m)\<close> with \<open>a\<cdot>x \<equiv> 1 (mod m)\<close>, computed by the extended Euclidean algorithm, and
  failing when \<open>gcd(a, m) \<noteq> 1\<close>. For \<open>m \<le> 0\<close> the interval \<open>[0, m)\<close> is empty and no such \<open>x\<close>
  exists, so the call fails there as well.
\<close>

definition inverse_mod :: "int \<Rightarrow> int \<Rightarrow> error + int" where
  "inverse_mod u v =
     (if v \<le> 0 \<or> gcd u v \<noteq> 1 then Inl ValueError
      else Inr (fst (bezw (nat (u mod v)) (nat v)) mod v))"

text \<open>
  \<^verbatim>\<open>generate_rsa_keys\<close>. The two calls \<^verbatim>\<open>getPrime(key_size // 2)\<close> are library calls that
  draw random primes; their results \<open>p\<close> and \<open>q\<close> are the arguments here.
\<close>

definition generate_rsa_keys :: "int \<Rightarrow> int \<Rightarrow> error + ((int \<times> int) \<times> (int \<times> int))" where
  "generate_rsa_keys p q =
     (let e = 65537;
          N = p * q;
          phi = (p - 1) * (q - 1)
      in case inverse_mod e phi of
           Inl err \<Rightarrow> Inl err
         | Inr d \<Rightarrow> Inr ((e, N), (d, N)))"

subsection \<open>Validity of keys, as the data model states it\<close>

definition is_prime :: "int \<Rightarrow> bool" where
  "is_prime p \<longleftrightarrow> 1 < p \<and> (\<forall>k \<in> {2 ..< p}. \<not> k dvd p)"

text \<open>
  A valid key pair: \<open>N\<close> is the product of two distinct primes, the exponents are positive
  and \<open>e\<cdot>d \<equiv> 1 (mod (p-1)(q-1))\<close>.
\<close>

definition valid_keypair :: "int \<Rightarrow> int \<Rightarrow> int \<times> int \<Rightarrow> int \<times> int \<Rightarrow> bool" where
  "valid_keypair p q public_key private_key \<longleftrightarrow>
     (case (public_key, private_key) of ((e, N), (d, N')) \<Rightarrow>
        is_prime p \<and> is_prime q \<and> p \<noteq> q \<and> N = p * q \<and> N' = N \<and>
        0 < e \<and> 0 < d \<and> (e * d) mod ((p - 1) * (q - 1)) = 1)"

section \<open>Properties\<close>

subsection \<open>The Euclidean helpers\<close>

lemma gcd'_abs: "\<bar>gcd' a b\<bar> = gcd a b"
proof (induction a b rule: gcd'.induct)
  case (1 a b)
  show ?case
  proof (cases "b = 0")
    case True then show ?thesis by (simp add: gcd'.simps[of a 0])
  next
    case False
    with 1 have "\<bar>gcd' b (a mod b)\<bar> = gcd b (a mod b)" by simp
    also have "\<dots> = gcd a b" by (simp add: gcd.commute gcd_red_int[symmetric])
    finally show ?thesis using False by (simp add: gcd'.simps[of a b])
  qed
qed

lemma gcd'_nonneg: "0 \<le> a \<Longrightarrow> 0 \<le> b \<Longrightarrow> 0 \<le> gcd' a b"
proof (induction a b rule: gcd'.induct)
  case (1 a b)
  show ?case
  proof (cases "b = 0")
    case True with 1 show ?thesis by (simp add: gcd'.simps[of a 0])
  next
    case False
    with 1 have "0 < b" by simp
    then have "0 \<le> a mod b" by simp
    with 1 False show ?thesis by (simp add: gcd'.simps[of a b])
  qed
qed

lemma gcd'_eq: "0 \<le> a \<Longrightarrow> 0 \<le> b \<Longrightarrow> gcd' a b = gcd a b"
  using gcd'_abs[of a b] gcd'_nonneg[of a b] by simp

lemma egcd_error: "egcd frames a b = Inl err \<Longrightarrow> err = RecursionError"
proof (induction frames arbitrary: a b)
  case 0
  then show ?case by simp
next
  case (Suc frames)
  then show ?case by (auto split: if_splits sum.splits)
qed

lemma egcd_within: "egcd_depth a b \<le> frames \<Longrightarrow> \<exists>t. egcd frames a b = Inr t"
proof (induction frames arbitrary: a b)
  case 0
  then show ?case by (simp add: egcd_depth.simps[of a b] split: if_splits)
next
  case (Suc frames)
  show ?case
  proof (cases "a = 0")
    case True
    then show ?thesis by simp
  next
    case False
    with Suc.prems have "egcd_depth (b mod a) a \<le> frames"
      by (simp add: egcd_depth.simps[of a b])
    from Suc.IH[OF this] obtain t where "egcd frames (b mod a) a = Inr t" by blast
    with False show ?thesis by (simp add: split_beta)
  qed
qed

lemma egcd_beyond: "frames < egcd_depth a b \<Longrightarrow> egcd frames a b = Inl RecursionError"
proof (induction frames arbitrary: a b)
  case 0
  then show ?case by simp
next
  case (Suc frames)
  from Suc.prems have a: "a \<noteq> 0" by (simp add: egcd_depth.simps[of a b] split: if_splits)
  with Suc.prems have "frames < egcd_depth (b mod a) a"
    by (simp add: egcd_depth.simps[of a b])
  from Suc.IH[OF this] a show ?case by simp
qed

lemma egcd_depth_le: "0 \<le> a \<Longrightarrow> egcd_depth a b \<le> nat a + 1"
proof (induction a b rule: egcd_depth.induct)
  case (1 a b)
  show ?case
  proof (cases "a = 0")
    case True
    then show ?thesis by (simp add: egcd_depth.simps[of 0 b])
  next
    case False
    with 1(2) have a: "0 < a" by simp
    then have m: "0 \<le> b mod a" "b mod a < a" by simp_all
    from 1(1)[OF False m(1)] have "egcd_depth (b mod a) a \<le> nat (b mod a) + 1" .
    moreover from m have "nat (b mod a) < nat a" by linarith
    ultimately have "Suc (egcd_depth (b mod a) a) \<le> nat a + 1" by linarith
    with False show ?thesis by (simp add: egcd_depth.simps[of a b])
  qed
qed

lemma egcd_bezout: "egcd frames a b = Inr (g, x, y) \<Longrightarrow> a * x + b * y = g"
proof (induction frames arbitrary: a b g x y)
  case 0
  then show ?case by simp
next
  case (Suc frames)
  show ?case
  proof (cases "a = 0")
    case True
    with Suc.prems show ?thesis by simp
  next
    case False
    with Suc.prems obtain g' y' x' where r: "egcd frames (b mod a) a = Inr (g', y', x')"
      and g: "g = g'" and x: "x = x' - (b div a) * y'" and y: "y = y'"
      by (auto split: sum.splits)
    from Suc.IH[OF r] have ih: "(b mod a) * y' + a * x' = g'" .
    have "a * x + b * y = a * x' + (b - a * (b div a)) * y'"
      unfolding x y by (simp add: algebra_simps)
    also have "b - a * (b div a) = b mod a" by (simp add: minus_mult_div_eq_mod)
    finally show ?thesis using ih g by (simp add: algebra_simps)
  qed
qed

lemma egcd_abs: "egcd frames a b = Inr (g, x, y) \<Longrightarrow> \<bar>g\<bar> = gcd a b"
proof (induction frames arbitrary: a b g x y)
  case 0
  then show ?case by simp
next
  case (Suc frames)
  show ?case
  proof (cases "a = 0")
    case True
    with Suc.prems show ?thesis by auto
  next
    case False
    with Suc.prems obtain y' x' where r: "egcd frames (b mod a) a = Inr (g, y', x')"
      by (auto split: sum.splits)
    from Suc.IH[OF r] have "\<bar>g\<bar> = gcd (b mod a) a" .
    also have "\<dots> = gcd a b" by (simp add: gcd.commute gcd_red_int[symmetric])
    finally show ?thesis .
  qed
qed

lemma egcd_nonneg: "egcd frames a b = Inr (g, x, y) \<Longrightarrow> 0 \<le> a \<Longrightarrow> 0 \<le> b \<Longrightarrow> 0 \<le> g"
proof (induction frames arbitrary: a b g x y)
  case 0
  then show ?case by simp
next
  case (Suc frames)
  show ?case
  proof (cases "a = 0")
    case True
    with Suc.prems show ?thesis by auto
  next
    case False
    with Suc.prems obtain y' x' where r: "egcd frames (b mod a) a = Inr (g, y', x')"
      by (auto split: sum.splits)
    from False Suc.prems have "0 < a" by simp
    then have "0 \<le> b mod a" by simp
    from Suc.IH[OF r this] Suc.prems show ?thesis by simp
  qed
qed

lemma egcd_nonpos: "egcd frames a b = Inr (g, x, y) \<Longrightarrow> a \<le> 0 \<Longrightarrow> b \<le> 0 \<Longrightarrow> g \<le> 0"
proof (induction frames arbitrary: a b g x y)
  case 0
  then show ?case by simp
next
  case (Suc frames)
  show ?case
  proof (cases "a = 0")
    case True
    with Suc.prems show ?thesis by auto
  next
    case False
    with Suc.prems obtain y' x' where r: "egcd frames (b mod a) a = Inr (g, y', x')"
      by (auto split: sum.splits)
    from False Suc.prems have "a < 0" by simp
    then have "b mod a \<le> 0" by simp
    from Suc.IH[OF r this] Suc.prems show ?thesis by simp
  qed
qed

lemma egcd_neg_left: "egcd frames a b = Inr (g, x, y) \<Longrightarrow> a < 0 \<Longrightarrow> g \<le> 0"
proof (cases frames)
  case 0
  assume "egcd frames a b = Inr (g, x, y)"
  with 0 show ?thesis by simp
next
  case (Suc k)
  assume e: "egcd frames a b = Inr (g, x, y)" and a: "a < 0"
  with Suc obtain y' x' where r: "egcd k (b mod a) a = Inr (g, y', x')"
    by (auto split: sum.splits)
  from a have "b mod a \<le> 0" by simp
  from egcd_nonpos[OF r this] a show ?thesis by simp
qed

subsection \<open>The modular inverse\<close>

text \<open>Whatever the frames, an argument that is not coprime to the modulus gives an error.\<close>

lemma modinv_not_coprime: "gcd a m \<noteq> 1 \<Longrightarrow> \<exists>err. modinv frames a m = Inl err"
proof (cases "egcd frames a m")
  case (Inl err)
  then show ?thesis by (simp add: modinv_def)
next
  case (Inr t)
  assume h: "gcd a m \<noteq> 1"
  obtain g x y where t: "t = (g, x, y)" by (cases t) auto
  from egcd_abs[of frames a m g x y] Inr t h have "g \<noteq> 1" by auto
  with Inr t show ?thesis by (simp add: modinv_def)
qed

lemma modinv_not_coprime_within:
  "gcd a m \<noteq> 1 \<Longrightarrow> egcd_depth a m \<le> frames \<Longrightarrow> modinv frames a m = Inl ValueError"
proof -
  assume h: "gcd a m \<noteq> 1" and d: "egcd_depth a m \<le> frames"
  from egcd_within[OF d] obtain g x y where t: "egcd frames a m = Inr (g, x, y)"
    by (metis prod_cases3)
  from egcd_abs[OF t] h have "g \<noteq> 1" by auto
  with t show ?thesis by (simp add: modinv_def)
qed

lemma modinv_beyond: "frames < egcd_depth a m \<Longrightarrow> modinv frames a m = Inl RecursionError"
  by (simp add: modinv_def egcd_beyond)

text \<open>A negative first argument never yields 1 as first component, so it never returns.\<close>

lemma modinv_negative: "a < 0 \<Longrightarrow> \<exists>err. modinv frames a m = Inl err"
proof (cases "egcd frames a m")
  case (Inl err)
  then show ?thesis by (simp add: modinv_def)
next
  case (Inr t)
  assume a: "a < 0"
  obtain g x y where t: "t = (g, x, y)" by (cases t) auto
  from egcd_neg_left[of frames a m g x y] Inr t a have "g \<noteq> 1" by auto
  with Inr t show ?thesis by (simp add: modinv_def)
qed

lemma modinv_coprime:
  assumes "0 \<le> a" "0 < m" "gcd a m = 1" "egcd_depth a m \<le> frames"
  shows "\<exists>x. modinv frames a m = Inr x \<and> 0 \<le> x \<and> x < m \<and> (a * x) mod m = 1 mod m"
proof -
  from egcd_within[OF assms(4)] obtain g x y where e: "egcd frames a m = Inr (g, x, y)"
    by (metis prod_cases3)
  have "g = 1" using egcd_abs[OF e] egcd_nonneg[OF e] assms by simp
  with egcd_bezout[OF e] have bz: "a * x + m * y = 1" by simp
  have r: "modinv frames a m = Inr (x mod m)"
    using e \<open>g = 1\<close> assms by (simp add: modinv_def py_mod_def)
  have "(a * (x mod m)) mod m = (a * x) mod m" by (simp add: mod_mult_right_eq)
  also have "\<dots> = (a * x + m * y) mod m" by simp
  also have "\<dots> = 1 mod m" using bz by simp
  finally have "(a * (x mod m)) mod m = 1 mod m" .
  with r assms show ?thesis by simp
qed

lemma modinv_3_7: "modinv 1000 3 7 = Inr 5"
  by code_simp

lemma modinv_4_6: "modinv 1000 4 6 = Inl ValueError"
  by code_simp

lemma modinv_3_7_short: "modinv 2 3 7 = Inl RecursionError"
  by code_simp

lemma egcd_depth_3_7: "egcd_depth 3 7 = 3"
  by code_simp

lemma egcd_depth_4_6: "egcd_depth 4 6 = 3"
  by code_simp

subsection \<open>Exponentiation with a non-negative exponent\<close>

lemma py_pow_nonneg: "n \<noteq> 0 \<Longrightarrow> 0 \<le> x \<Longrightarrow> py_pow b x n = Inr (b ^ nat x mod n)"
  by (auto simp: py_pow_def abs_if split: if_splits)

lemma blind_with_eq:
  "owner_N self \<noteq> 0 \<Longrightarrow> 0 \<le> owner_e self \<Longrightarrow>
   blind_with self m r =
     Inr \<lparr>blinded_msg = (m * r ^ nat (owner_e self)) mod owner_N self,
          blind_r = r, original_hash = m\<rparr>"
  by (simp add: blind_with_def py_pow_nonneg py_mod_def mod_mult_right_eq)

subsection \<open>The search for a blinding factor\<close>

lemma sample_r_unfold1: "N < 3 \<Longrightarrow> sample_r N rnd = Some (Inl ValueError)"
  by (subst sample_r.simps) (simp add: randint_def)

lemma randint_draw: "3 \<le> N \<Longrightarrow> randint 2 (N - 1) raw = Inr (draw N raw)"
  by (simp add: randint_def draw_def)

lemma draw_range: "3 \<le> N \<Longrightarrow> 2 \<le> draw N raw \<and> draw N raw \<le> N - 1"
proof -
  assume "3 \<le> N"
  then have "0 < N - 2" by simp
  then have "0 \<le> int raw mod (N - 2)" "int raw mod (N - 2) < N - 2"
    by (simp_all)
  then show ?thesis by (simp add: draw_def coprime_iff_gcd_eq_1)
qed

lemma sample_r_hit:
  "3 \<le> N \<Longrightarrow> coprime (draw N (shd rnd)) N \<Longrightarrow> sample_r N rnd = Some (Inr (draw N (shd rnd)))"
  using draw_range[of N "shd rnd"]
  by (subst sample_r.simps) (simp add: randint_draw gcd'_eq coprime_iff_gcd_eq_1)

lemma sample_r_miss:
  "3 \<le> N \<Longrightarrow> \<not> coprime (draw N (shd rnd)) N \<Longrightarrow> sample_r N rnd = sample_r N (stl rnd)"
  using draw_range[of N "shd rnd"]
  by (subst sample_r.simps) (simp add: randint_draw gcd'_eq coprime_iff_gcd_eq_1)

lemma sample_r_first:
  assumes N: "3 \<le> N"
  shows "coprime (draw N (rnd !! n)) N \<Longrightarrow> (\<forall>k<n. \<not> coprime (draw N (rnd !! k)) N) \<Longrightarrow>
     sample_r N rnd = Some (Inr (draw N (rnd !! n)))"
proof (induction n arbitrary: rnd)
  case 0
  then show ?case using sample_r_hit[OF N, of rnd] by simp
next
  case (Suc n)
  have miss: "\<not> coprime (draw N (shd rnd)) N" using Suc.prems(2)[rule_format, of 0] by simp
  have "sample_r N (stl rnd) = Some (Inr (draw N (stl rnd !! n)))"
  proof (rule Suc.IH)
    show "coprime (draw N (stl rnd !! n)) N" using Suc.prems(1) by simp
    show "\<forall>k<n. \<not> coprime (draw N (stl rnd !! k)) N"
      using Suc.prems(2) by (metis Suc_less_eq snth.simps(2))
  qed
  then show ?case using sample_r_miss[OF N miss] by simp
qed


lemma sample_r_Some:
  assumes "sample_r N rnd = Some y"
  shows "3 \<le> N \<longrightarrow> (\<exists>n. coprime (draw N (rnd !! n)) N)"
proof (rule sample_r.raw_induct
    [where P = "\<lambda>N rnd y. 3 \<le> N \<longrightarrow> (\<exists>n. coprime (draw N (rnd !! n)) N)", OF _ assms])
  fix f :: "int \<Rightarrow> nat stream \<Rightarrow> (error + int) option" and M s z
  assume IH: "\<And>M s z. f M s = Some z \<Longrightarrow> 3 \<le> M \<longrightarrow> (\<exists>n. coprime (draw M (s !! n)) M)"
    and step: "(case randint 2 (M - 1) (shd s) of Inl err \<Rightarrow> Some (Inl err)
      | Inr r \<Rightarrow> if gcd' r M = 1 then Some (Inr r) else f M (stl s)) = Some z"
  show "3 \<le> M \<longrightarrow> (\<exists>n. coprime (draw M (s !! n)) M)"
  proof
    assume M: "3 \<le> M"
    show "\<exists>n. coprime (draw M (s !! n)) M"
    proof (cases "coprime (draw M (shd s)) M")
      case True
      then have "coprime (draw M (s !! 0)) M" by simp
      then show ?thesis by (rule exI)
    next
      case False
      with step M draw_range[of M "shd s"] have "f M (stl s) = Some z"
        by (simp add: randint_draw gcd'_eq coprime_iff_gcd_eq_1)
      from IH[OF this] M obtain n where "coprime (draw M (stl s !! n)) M" by auto
      then have "coprime (draw M (s !! Suc n)) M" by simp
      then show ?thesis by (rule exI)
    qed
  qed
qed

lemma sample_r_never:
  assumes N: "3 \<le> N" and bad: "\<forall>n. \<not> coprime (draw N (rnd !! n)) N"
  shows "sample_r N rnd = None"
proof (cases "sample_r N rnd")
  case None then show ?thesis .
next
  case (Some y)
  from sample_r_Some[OF this] N bad show ?thesis by auto
qed

subsection \<open>Fermat's little theorem for the executable primality test\<close>

lemma is_prime_nat_dvd:
  assumes "is_prime p" "(k::int) dvd p" "0 < k"
  shows "k = 1 \<or> k = p"
proof -
  from assms have p: "1 < p" by (simp add: is_prime_def)
  from assms(2,3) p have "k \<le> p" by (simp add: zdvd_imp_le)
  show ?thesis
  proof (rule ccontr)
    assume "\<not> (k = 1 \<or> k = p)"
    with \<open>k \<le> p\<close> assms(3) have "k \<in> {2..<p}" by auto
    with assms(1) have "\<not> k dvd p" by (simp add: is_prime_def)
    with assms(2) show False by simp
  qed
qed

lemma is_prime_coprime:
  assumes "is_prime p" "\<not> p dvd (a::int)"
  shows "coprime p a"
proof -
  from assms have p: "1 < p" by (simp add: is_prime_def)
  let ?g = "gcd p a"
  have "?g dvd p" by simp
  moreover have "0 < ?g" using p by (simp add: gcd_pos_int)
  ultimately have "?g = 1 \<or> ?g = p" using is_prime_nat_dvd[OF assms(1)] by blast
  moreover have "?g \<noteq> p"
  proof
    assume "?g = p"
    then have "p dvd a" by (metis gcd_dvd2)
    with assms(2) show False by simp
  qed
  ultimately show ?thesis by (simp add: coprime_iff_gcd_eq_1)
qed

lemma is_prime_dvd_mult:
  assumes "is_prime p" "p dvd a * (b::int)"
  shows "p dvd a \<or> p dvd b"
proof (cases "p dvd a")
  case True then show ?thesis by simp
next
  case False
  then have "coprime p a" using is_prime_coprime[OF assms(1)] by simp
  with assms(2) have "p dvd b" by (simp add: coprime_dvd_mult_right_iff)
  then show ?thesis by simp
qed

lemma is_prime_dvd_choose:
  assumes "is_prime (int p)" "0 < k" "k < p"
  shows "int p dvd int (p choose k)"
proof -
  obtain n where p: "p = Suc n" using assms(2,3) by (cases p) auto
  obtain j where k: "k = Suc j" using assms(2) by (cases k) auto
  have "Suc j * (Suc n choose Suc j) = Suc n * (n choose j)"
    by (rule Suc_times_binomial)
  then have "int k * int (p choose k) = int p * int (n choose j)"
    unfolding p k by (metis of_nat_mult)
  then have "int p dvd int k * int (p choose k)" by simp
  then have "int p dvd int k \<or> int p dvd int (p choose k)"
    by (rule is_prime_dvd_mult[OF assms(1)])
  moreover have "\<not> int p dvd int k" using assms(2,3) by (simp add: nat_dvd_not_less)
  ultimately show ?thesis by simp
qed


lemma fermat_step:
  assumes P: "is_prime (int p)"
  shows "((x::int) + 1) ^ p mod int p = (x ^ p + 1) mod int p"
proof -
  from P have p: "1 < p" by (simp add: is_prime_def)
  let ?f = "\<lambda>k. of_nat (p choose k) * x ^ k :: int"
  have "(x + 1) ^ p = (\<Sum>k\<le>p. ?f k)"
    using binomial_ring[of x 1 p] by simp
  also have "\<dots> = ?f p + sum ?f ({..p} - {p})"
    by (rule sum.remove) auto
  also have "sum ?f ({..p} - {p}) = ?f 0 + sum ?f ({..p} - {p} - {0})"
    by (rule sum.remove) (use p in auto)
  finally have eq: "(x + 1) ^ p = x ^ p + 1 + sum ?f ({..p} - {p} - {0})" by simp
  have "int p dvd sum ?f ({..p} - {p} - {0})"
  proof (rule dvd_sum)
    fix k assume "k \<in> {..p} - {p} - {0}"
    then have "0 < k" "k < p" by auto
    from is_prime_dvd_choose[OF P this] show "int p dvd ?f k" by simp
  qed
  then have "(x ^ p + 1 + sum ?f ({..p} - {p} - {0})) mod int p = (x ^ p + 1) mod int p"
    by (metis mod_add_self2 dvd_def mod_mult_self2)
  with eq show ?thesis by simp
qed

lemma fermat_nat:
  assumes P: "is_prime (int p)"
  shows "(int a) ^ p mod int p = int a mod int p"
proof (induction a)
  case 0
  from P have "0 < p" by (simp add: is_prime_def)
  then show ?case by (simp add: power_0_left)
next
  case (Suc a)
  have "(int (Suc a)) ^ p mod int p = (int a + 1) ^ p mod int p" by (simp add: add.commute)
  also have "\<dots> = (int a ^ p + 1) mod int p" by (rule fermat_step[OF P])
  also have "\<dots> = (int a ^ p mod int p + 1) mod int p" by (simp add: mod_add_left_eq)
  also have "\<dots> = (int a mod int p + 1) mod int p" by (simp only: Suc.IH)
  also have "\<dots> = (int a + 1) mod int p" by (simp only: mod_add_left_eq)
  also have "\<dots> = int (Suc a) mod int p" by (simp add: add.commute)
  finally show ?case .
qed

lemma fermat_int:
  assumes P: "is_prime p"
  shows "(x::int) ^ nat p mod p = x mod p"
proof -
  from P have p: "1 < p" by (simp add: is_prime_def)
  then have ip: "int (nat p) = p" by simp
  have nn: "0 \<le> x mod p" using p by simp
  have "x ^ nat p mod p = (x mod p) ^ nat p mod p" by (simp add: power_mod)
  also have "\<dots> = (int (nat (x mod p))) ^ nat p mod int (nat p)" using nn ip by simp
  also have "\<dots> = int (nat (x mod p)) mod int (nat p)"
    by (rule fermat_nat) (simp only: ip P)
  also have "\<dots> = x mod p" using nn ip by simp
  finally show ?thesis .
qed

lemma fermat_iter:
  assumes P: "is_prime p"
  shows "(x::int) ^ (1 + j * nat (p - 1)) mod p = x mod p"
proof (induction j)
  case 0 show ?case by simp
next
  case (Suc j)
  from P have p: "1 < p" by (simp add: is_prime_def)
  then have np: "Suc (nat (p - 1)) = nat p" by simp
  have "x ^ (1 + Suc j * nat (p - 1)) = x ^ (1 + j * nat (p - 1)) * x ^ nat (p - 1)"
    by (simp add: power_add algebra_simps)
  then have "x ^ (1 + Suc j * nat (p - 1)) mod p
      = x ^ (1 + j * nat (p - 1)) * x ^ nat (p - 1) mod p"
    by (simp only:)
  also have "\<dots> = (x ^ (1 + j * nat (p - 1)) mod p) * x ^ nat (p - 1) mod p"
    by (simp only: mod_mult_left_eq)
  also have "\<dots> = (x mod p) * x ^ nat (p - 1) mod p" by (simp only: Suc.IH)
  also have "\<dots> = x * x ^ nat (p - 1) mod p" by (simp only: mod_mult_left_eq)
  also have "x * x ^ nat (p - 1) = x ^ nat p" using np by (metis power_Suc)
  also have "x ^ nat p mod p = x mod p" by (rule fermat_int[OF P])
  finally show ?case .
qed

subsection \<open>The RSA exponents cancel modulo a product of two distinct primes\<close>

lemma distinct_primes_coprime:
  assumes "is_prime p" "is_prime q" "p \<noteq> q"
  shows "coprime p q"
proof (rule is_prime_coprime[OF assms(1)])
  from assms(1) have p: "1 < p" by (simp add: is_prime_def)
  show "\<not> p dvd q"
  proof
    assume "p dvd q"
    with is_prime_nat_dvd[OF assms(2), of p] p have "p = 1 \<or> p = q" by simp
    with p assms(3) show False by simp
  qed
qed

lemma exponent_mod_prime:
  assumes P: "is_prime p" and Q: "1 < q" and k: "0 \<le> k" "k mod ((p - 1) * (q - 1)) = 1"
  shows "(x::int) ^ nat k mod p = x mod p"
proof -
  from P have p: "1 < p" by (simp add: is_prime_def)
  let ?phi = "(p - 1) * (q - 1)"
  have phi: "0 < ?phi" using p Q by simp
  define t where "t = k div ?phi"
  have t: "0 \<le> t" unfolding t_def using k(1) phi by (simp add: pos_imp_zdiv_nonneg_iff)
  have "k = ?phi * t + 1" unfolding t_def using k(2) by (metis mult_div_mod_eq)
  then have "k = 1 + (t * (q - 1)) * (p - 1)" by (simp add: algebra_simps)
  moreover have "0 \<le> t * (q - 1)" using t Q by simp
  ultimately have "nat k = 1 + nat (t * (q - 1)) * nat (p - 1)"
    using p by (simp add: nat_add_distrib nat_mult_distrib)
  then show ?thesis using fermat_iter[OF P, of x "nat (t * (q - 1))"] by simp
qed

lemma rsa_exponent:
  assumes P: "is_prime p" and Q: "is_prime q" and ne: "p \<noteq> q"
    and k: "0 \<le> k" "k mod ((p - 1) * (q - 1)) = 1"
  shows "(x::int) ^ nat k mod (p * q) = x mod (p * q)"
proof -
  from P Q have p: "1 < p" and q: "1 < q" by (simp_all add: is_prime_def)
  have "x ^ nat k mod p = x mod p" by (rule exponent_mod_prime[OF P q k])
  then have dp: "p dvd x ^ nat k - x" by (simp add: mod_eq_dvd_iff)
  from k(2) have k': "k mod ((q - 1) * (p - 1)) = 1" by (simp add: mult.commute)
  have "x ^ nat k mod q = x mod q" by (rule exponent_mod_prime[OF Q p k(1) k'])
  then have dq: "q dvd x ^ nat k - x" by (simp add: mod_eq_dvd_iff)
  have "coprime p q" by (rule distinct_primes_coprime[OF P Q ne])
  with dp dq have "p * q dvd x ^ nat k - x" by (simp add: divides_mult)
  then show ?thesis by (simp add: mod_eq_dvd_iff)
qed

lemma valid_keypairD:
  assumes "valid_keypair p q (e, N) (d, N')"
  shows "is_prime p" "is_prime q" "p \<noteq> q" "N = p * q" "N' = N" "0 < e" "0 < d"
    "(e * d) mod ((p - 1) * (q - 1)) = 1" "1 < N"
proof -
  show a: "is_prime p" "is_prime q" "p \<noteq> q" "N = p * q" "N' = N" "0 < e" "0 < d"
    "(e * d) mod ((p - 1) * (q - 1)) = 1"
    using assms by (simp_all add: valid_keypair_def)
  from a(1,2) have "1 < p" "1 < q" by (simp_all add: is_prime_def)
  then have "1 * 1 < p * q" by (intro mult_strict_mono) auto
  with a(4) show "1 < N" by simp
qed

lemma rsa_cycle:
  assumes V: "valid_keypair p q (e, N) (d, N')"
  shows "((x::int) ^ nat e) ^ nat d mod N = x mod N" "(x ^ nat d) ^ nat e mod N = x mod N"
proof -
  note v = valid_keypairD[OF V]
  have "0 \<le> e * d" using v(6,7) by simp
  from rsa_exponent[OF v(1,2,3) this v(8), of x]
  have *: "x ^ nat (e * d) mod N = x mod N" using v(4) by simp
  have "nat (e * d) = nat e * nat d" using v(6,7) by (simp add: nat_mult_distrib)
  with * show "(x ^ nat e) ^ nat d mod N = x mod N" by (simp add: power_mult)
  from * \<open>nat (e * d) = nat e * nat d\<close> show "(x ^ nat d) ^ nat e mod N = x mod N"
    by (simp add: power_mult mult.commute)
qed

subsection \<open>Blinding, signing, unblinding and verifying\<close>

lemma sample_r_exists:
  assumes N: "3 \<le> N" and c: "coprime (draw N (rnd !! n)) N"
  shows "\<exists>r. sample_r N rnd = Some (Inr r) \<and> 2 \<le> r \<and> r \<le> N - 1 \<and> coprime r N"
proof -
  define n0 where "n0 = (LEAST n. coprime (draw N (rnd !! n)) N)"
  have c0: "coprime (draw N (rnd !! n0)) N" unfolding n0_def using c by (rule LeastI)
  have "\<forall>k<n0. \<not> coprime (draw N (rnd !! k)) N"
    unfolding n0_def using not_less_Least by blast
  from sample_r_first[OF N c0 this] c0 draw_range[OF N, of "rnd !! n0"]
  show ?thesis by simp
qed

lemma sample_r_result:
  assumes "sample_r N rnd = Some y"
  shows "(N < 3 \<and> y = Inl ValueError) \<or>
         (3 \<le> N \<and> (\<exists>r. y = Inr r \<and> 2 \<le> r \<and> r \<le> N - 1 \<and> coprime r N))"
proof (cases "N < 3")
  case True
  with assms sample_r_unfold1[OF True, of rnd] show ?thesis by simp
next
  case False
  then have N: "3 \<le> N" by simp
  from sample_r_Some[OF assms] N obtain n where "coprime (draw N (rnd !! n)) N" by auto
  from sample_r_exists[OF N this] assms N show ?thesis by auto
qed

lemma unblind_valid:
  assumes "0 \<le> r" "1 < owner_N self" "coprime r (owner_N self)"
    and "egcd_depth r (owner_N self) \<le> frames"
  shows "\<exists>x. unblind_signature frames self s r = Inr ((s * x) mod owner_N self) \<and>
             (r * x) mod owner_N self = 1"
proof -
  let ?N = "owner_N self"
  from assms have "gcd r ?N = 1" by (simp add: coprime_iff_gcd_eq_1)
  with modinv_coprime[of r ?N frames] assms obtain x where
    x: "modinv frames r ?N = Inr x" "(r * x) mod ?N = 1 mod ?N" by auto
  from x(2) assms(2) have "(r * x) mod ?N = 1" by simp
  moreover have "unblind_signature frames self s r = Inr ((s * x) mod ?N)"
    using x(1) assms(2) by (simp add: unblind_signature_def py_mod_def)
  ultimately show ?thesis by blast
qed

lemma unblind_not_coprime:
  "\<not> coprime r (owner_N self) \<Longrightarrow> \<exists>err. unblind_signature frames self s r = Inl err"
  using modinv_not_coprime[of r "owner_N self" frames]
  by (auto simp: unblind_signature_def coprime_iff_gcd_eq_1)

lemma unblind_not_coprime_within:
  "\<not> coprime r (owner_N self) \<Longrightarrow> egcd_depth r (owner_N self) \<le> frames \<Longrightarrow>
   unblind_signature frames self s r = Inl ValueError"
  by (simp add: unblind_signature_def modinv_not_coprime_within coprime_iff_gcd_eq_1)

lemma unblind_beyond:
  "frames < egcd_depth r (owner_N self) \<Longrightarrow>
   unblind_signature frames self s r = Inl RecursionError"
  by (simp add: unblind_signature_def modinv_beyond)

lemma verify_eq:
  "owner_N self \<noteq> 0 \<Longrightarrow> 0 \<le> owner_e self \<Longrightarrow>
   verify sha256_digest self msg s =
     Inr (s ^ nat (owner_e self) mod owner_N self = message_hash sha256_digest msg mod owner_N self)"
  by (simp add: verify_def py_pow_nonneg py_mod_def Let_def)

lemma sign_blinded_eq:
  "signer_N self \<noteq> 0 \<Longrightarrow> 0 \<le> signer_d self \<Longrightarrow>
   sign_blinded self b = Inr (b ^ nat (signer_d self) mod signer_N self)"
  by (simp add: sign_blinded_def py_pow_nonneg)

text \<open>The algebra of blinding, signing and unblinding.\<close>

lemma unblind_algebra:
  assumes V: "valid_keypair p q (e, N) (d, N')" and x: "(r * x) mod N = 1"
  shows "((((m * r ^ nat e) mod N) ^ nat d mod N) * x) mod N = m ^ nat d mod N"
proof -
  have "((m * r ^ nat e) mod N) ^ nat d mod N = (m * r ^ nat e) ^ nat d mod N"
    by (simp add: power_mod)
  also have "\<dots> = (m ^ nat d * (r ^ nat e) ^ nat d) mod N" by (simp add: power_mult_distrib)
  also have "\<dots> = (m ^ nat d * ((r ^ nat e) ^ nat d mod N)) mod N"
    by (simp only: mod_mult_right_eq)
  also have "\<dots> = (m ^ nat d * (r mod N)) mod N" by (simp only: rsa_cycle(1)[OF V])
  also have "\<dots> = (m ^ nat d * r) mod N" by (simp only: mod_mult_right_eq)
  finally have bs: "((m * r ^ nat e) mod N) ^ nat d mod N = (m ^ nat d * r) mod N" .
  have "(((m ^ nat d * r) mod N) * x) mod N = (m ^ nat d * r * x) mod N"
    by (simp only: mod_mult_left_eq)
  also have "\<dots> = (m ^ nat d * (r * x)) mod N" by (simp only: mult.assoc)
  also have "\<dots> = (m ^ nat d * ((r * x) mod N)) mod N" by (simp only: mod_mult_right_eq)
  also have "\<dots> = m ^ nat d mod N" by (simp only: x mult_1_right)
  finally show ?thesis by (simp only: bs)
qed

subsection \<open>Blinding with a supplied or a sampled factor, key generation, and a small key pair\<close>

lemma is_prime_3: "is_prime 3"
  by code_simp

lemma is_prime_11: "is_prime 11"
  by code_simp

lemma toy_keypair: "valid_keypair 3 11 (7, 33) (3, 33)"
  by (simp add: valid_keypair_def is_prime_3 is_prime_11)

lemma coprime_5_33: "coprime (5::int) 33"
  by code_simp

lemma hash_vote: "message_hash id (Str ''vote'') = 1987015781"
  by code_simp

lemma blind_message_supplied:
  "owner_N self \<noteq> 0 \<Longrightarrow> 0 \<le> owner_e self \<Longrightarrow>
   blind_message sha256_digest self msg (Some r) rnd =
     Some (Inr \<lparr>blinded_msg = (message_hash sha256_digest msg * r ^ nat (owner_e self)) mod owner_N self,
               blind_r = r, original_hash = message_hash sha256_digest msg\<rparr>)"
  by (simp add: blind_message_def blind_with_eq Let_def)

lemma blind_message_sampled_None:
  "(blind_message sha256_digest self msg None rnd = None) = (sample_r (owner_N self) rnd = None)"
  by (simp add: blind_message_def Let_def split: option.splits sum.splits)

lemma blind_message_sampled_Some:
  "sample_r (owner_N self) rnd = Some (Inr r) \<Longrightarrow>
   blind_message sha256_digest self msg None rnd = Some (blind_with self (message_hash sha256_digest msg) r)"
  by (simp add: blind_message_def Let_def)

lemma blind_message_sampled_result:
  assumes "blind_message sha256_digest self msg None rnd = Some (Inr ctx)"
  shows "\<exists>r. sample_r (owner_N self) rnd = Some (Inr r) \<and>
             blind_with self (message_hash sha256_digest msg) r = Inr ctx"
  using assms by (auto simp: blind_message_def Let_def split: option.splits sum.splits)

lemma draw_33_0: "coprime (draw 33 0) 33"
  by code_simp

lemma draw_33_1: "\<not> coprime (draw 33 1) 33"
  by code_simp

lemma not_coprime_66_33: "\<not> coprime (66::int) 33"
  by code_simp

lemma valid_keypair_owner:
  assumes V: "valid_keypair p q (e, N) (d, N')"
  shows "owner_N (new_owner (e, N)) = N" "owner_e (new_owner (e, N)) = e"
    "signer_N (new_signer (d, N')) = N" "signer_d (new_signer (d, N')) = d"
    "N \<noteq> 0" "0 \<le> e" "0 \<le> d" "3 \<le> N"
proof -
  note v = valid_keypairD[OF V]
  show "owner_N (new_owner (e, N)) = N" "owner_e (new_owner (e, N)) = e"
    by (simp_all add: new_owner_def)
  show "signer_N (new_signer (d, N')) = N" "signer_d (new_signer (d, N')) = d"
    using v(5) by (simp_all add: new_signer_def)
  show "N \<noteq> 0" "0 \<le> e" "0 \<le> d" using v(6,7,9) by simp_all
  from v(1,2) have "2 \<le> p" "2 \<le> q" by (simp_all add: is_prime_def)
  then have "2 * 2 \<le> p * q" by (intro mult_mono) auto
  with v(4) show "3 \<le> N" by simp
qed

text \<open>Blinding with \<open>r\<close>, signing and unblinding with the same \<open>r\<close>.\<close>

lemma blind_sign_unblind:
  assumes V: "valid_keypair p q (e, N) (d, N')" and r: "0 \<le> r" "coprime r N"
    and dp: "egcd_depth r N \<le> frames"
  shows "\<exists>bs. sign_blinded (new_signer (d, N')) ((m * r ^ nat e) mod N) = Inr bs \<and>
           unblind_signature frames (new_owner (e, N)) bs r = Inr (m ^ nat d mod N)"
proof -
  note k = valid_keypair_owner[OF V]
  note v = valid_keypairD[OF V]
  let ?bs = "((m * r ^ nat e) mod N) ^ nat d mod N"
  have s: "sign_blinded (new_signer (d, N')) ((m * r ^ nat e) mod N) = Inr ?bs"
    using sign_blinded_eq[of "new_signer (d, N')" "(m * r ^ nat e) mod N"] k by simp
  from unblind_valid[of r "new_owner (e, N)" frames ?bs] r v(9) k(1) dp obtain x where
    x: "unblind_signature frames (new_owner (e, N)) ?bs r = Inr ((?bs * x) mod N)"
      "(r * x) mod N = 1"
    by auto
  from unblind_algebra[OF V x(2), of m] x(1)
  have "unblind_signature frames (new_owner (e, N)) ?bs r = Inr (m ^ nat d mod N)" by simp
  with s show ?thesis by blast
qed

lemma hash_veto: "message_hash id (Str ''veto'') = 1986360431"
  by code_simp

lemma verify_vote_5: "verify id (new_owner (7, 33)) (Str ''vote'') 5 = Inr True"
  by code_simp

lemma inverse_mod_coprime:
  assumes v: "0 < v" and c: "coprime u v"
  shows "\<exists>x. inverse_mod u v = Inr x \<and> 0 \<le> x \<and> x < v \<and> (u * x) mod v = 1 mod v"
proof -
  let ?a = "nat (u mod v)" and ?b = "nat v"
  let ?s = "fst (bezw ?a ?b)" and ?t = "snd (bezw ?a ?b)"
  have a: "int ?a = u mod v" and b: "int ?b = v" using v by simp_all
  from c v have "coprime (u mod v) v" by (simp add: coprime_mod_left_iff)
  then have "coprime (int ?a) (int ?b)" by (simp only: a b)
  then have "coprime ?a ?b" using coprime_int_iff[of ?a ?b] by blast
  then have g: "gcd ?a ?b = 1" by (rule coprime_imp_gcd_eq_1)
  have "int (gcd ?a ?b) = ?s * int ?a + ?t * int ?b" by (rule bezw_aux)
  then have "int 1 = ?s * (u mod v) + ?t * v" by (simp only: g a b)
  then have "?s * (u mod v) + ?t * v = 1" by simp
  then have "(?s * (u mod v) + ?t * v) mod v = 1 mod v" by simp
  then have "(?s * (u mod v)) mod v = 1 mod v" by simp
  then have "((u mod v) * ?s) mod v = 1 mod v" by (simp only: mult.commute)
  then have "(u * ?s) mod v = 1 mod v" by (simp only: mod_mult_left_eq)
  then have "(u * (?s mod v)) mod v = 1 mod v" by (simp add: mod_mult_right_eq)
  moreover have "inverse_mod u v = Inr (?s mod v)"
    using v c by (simp add: inverse_mod_def coprime_iff_gcd_eq_1)
  moreover have "0 \<le> ?s mod v" "?s mod v < v" using v by simp_all
  ultimately show ?thesis by blast
qed

lemma inverse_mod_not_coprime: "0 < v \<Longrightarrow> \<not> coprime u v \<Longrightarrow> inverse_mod u v = Inl ValueError"
  by (simp add: inverse_mod_def coprime_iff_gcd_eq_1)

lemma coprime_65537_20: "coprime (65537::int) 20"
  by code_simp

lemma inverse_mod_65537_20: "inverse_mod 65537 20 = Inr 13"
  by code_simp

lemma sample_r_exists_index:
  assumes N: "3 \<le> N" and c: "coprime (draw N (rnd !! n)) N"
  shows "\<exists>k\<le>n. sample_r N rnd = Some (Inr (draw N (rnd !! k))) \<and> coprime (draw N (rnd !! k)) N"
proof -
  define n0 where "n0 = (LEAST n. coprime (draw N (rnd !! n)) N)"
  have c0: "coprime (draw N (rnd !! n0)) N" unfolding n0_def using c by (rule LeastI)
  have le: "n0 \<le> n" unfolding n0_def using c by (rule Least_le)
  have "\<forall>k<n0. \<not> coprime (draw N (rnd !! k)) N"
    unfolding n0_def using not_less_Least by blast
  from sample_r_first[OF N c0 this] c0 le show ?thesis by blast
qed



text \<open>
  Within the frames that are left the protocol is sound: for a valid key pair, blinding,
  signing and unblinding return, the unblinded value is \<open>pow(digest, d, N)\<close> and
  \<open>verify\<close> accepts it.
\<close>

lemma unblinding_identity_within_limit:
  assumes "valid_keypair p q (e, N) (d, N')" and "0 \<le> r" and "coprime r N"
    and "egcd_depth r N \<le> frames"
  shows "\<exists>ctx bs.
     blind_message sha256_digest (new_owner (e, N)) msg (Some r) rnd = Some (Inr ctx) \<and>
     sign_blinded (new_signer (d, N')) (blinded_msg ctx) = Inr bs \<and>
     unblind_signature frames (new_owner (e, N)) bs r =
       py_pow (message_hash sha256_digest msg) d N \<and>
     py_pow (message_hash sha256_digest msg) d N =
       Inr (message_hash sha256_digest msg ^ nat d mod N)"
proof -
  note k = valid_keypair_owner[OF assms(1)]
  let ?m = "message_hash sha256_digest msg"
  have b: "blind_message sha256_digest (new_owner (e, N)) msg (Some r) rnd =
       Some (Inr \<lparr>blinded_msg = (?m * r ^ nat e) mod N, blind_r = r, original_hash = ?m\<rparr>)"
    using blind_message_supplied[of "new_owner (e, N)" sha256_digest msg r rnd] k by simp
  from blind_sign_unblind[OF assms, of ?m] obtain bs where
    bs: "sign_blinded (new_signer (d, N')) ((?m * r ^ nat e) mod N) = Inr bs"
      "unblind_signature frames (new_owner (e, N)) bs r = Inr (?m ^ nat d mod N)" by blast
  have pw: "py_pow ?m d N = Inr (?m ^ nat d mod N)" using k by (simp add: py_pow_nonneg)
  from b bs pw show ?thesis by simp
qed

lemma round_trip_within_limit:
  assumes "valid_keypair p q (e, N) (d, N')"
    and "case r_arg of
           None \<Rightarrow> coprime (draw N (rnd !! n)) N \<and>
                   (\<forall>k\<le>n. egcd_depth (draw N (rnd !! k)) N \<le> frames)
         | Some r \<Rightarrow> 0 \<le> r \<and> coprime r N \<and> egcd_depth r N \<le> frames"
  shows "\<exists>ctx bs s.
     blind_message sha256_digest (new_owner (e, N)) msg r_arg rnd = Some (Inr ctx) \<and>
     sign_blinded (new_signer (d, N')) (blinded_msg ctx) = Inr bs \<and>
     unblind_signature frames (new_owner (e, N)) bs (blind_r ctx) = Inr s \<and>
     verify sha256_digest (new_owner (e, N)) msg s = Inr True"
proof -
  note V = assms(1)
  note k = valid_keypair_owner[OF V]
  let ?m = "message_hash sha256_digest msg"
  let ?ctx = "\<lambda>r. \<lparr>blinded_msg = (?m * r ^ nat e) mod N, blind_r = r, original_hash = ?m\<rparr>"
  have "\<exists>r. 0 \<le> r \<and> coprime r N \<and> egcd_depth r N \<le> frames \<and>
     blind_message sha256_digest (new_owner (e, N)) msg r_arg rnd = Some (Inr (?ctx r))"
  proof (cases r_arg)
    case None
    with assms(2) have c: "coprime (draw N (rnd !! n)) N"
      and dp: "\<forall>k\<le>n. egcd_depth (draw N (rnd !! k)) N \<le> frames" by simp_all
    from sample_r_exists_index[OF k(8) c] obtain j where j: "j \<le> n"
      "sample_r N rnd = Some (Inr (draw N (rnd !! j)))" "coprime (draw N (rnd !! j)) N"
      by blast
    let ?r = "draw N (rnd !! j)"
    have r0: "0 \<le> ?r" using draw_range[OF k(8), of "rnd !! j"] by simp
    have rd: "egcd_depth ?r N \<le> frames" using dp j(1) by simp
    have "blind_message sha256_digest (new_owner (e, N)) msg None rnd = Some (Inr (?ctx ?r))"
      using blind_message_sampled_Some[of "new_owner (e, N)" rnd ?r sha256_digest msg] j(2) k
        blind_with_eq[of "new_owner (e, N)" ?m ?r]
      by simp
    with r0 j(3) rd None show ?thesis by auto
  next
    case (Some r)
    with assms(2) have r: "0 \<le> r" "coprime r N" "egcd_depth r N \<le> frames" by simp_all
    have "blind_message sha256_digest (new_owner (e, N)) msg (Some r) rnd = Some (Inr (?ctx r))"
      using blind_message_supplied[of "new_owner (e, N)" sha256_digest msg r rnd] k by simp
    with r Some show ?thesis by auto
  qed
  then obtain r where r: "0 \<le> r" "coprime r N" "egcd_depth r N \<le> frames"
    and b: "blind_message sha256_digest (new_owner (e, N)) msg r_arg rnd = Some (Inr (?ctx r))"
    by blast
  from blind_sign_unblind[OF V r, of ?m] obtain bs where
    bs: "sign_blinded (new_signer (d, N')) ((?m * r ^ nat e) mod N) = Inr bs"
      "unblind_signature frames (new_owner (e, N)) bs r = Inr (?m ^ nat d mod N)" by blast
  have "(?m ^ nat d mod N) ^ nat e mod N = (?m ^ nat d) ^ nat e mod N" by (simp add: power_mod)
  also have "\<dots> = ?m mod N" by (rule rsa_cycle(2)[OF V])
  finally have "verify sha256_digest (new_owner (e, N)) msg (?m ^ nat d mod N) = Inr True"
    using verify_eq[of "new_owner (e, N)" sha256_digest msg "?m ^ nat d mod N"] k by simp
  with b bs show ?thesis by simp
qed

lemma egcd_depth_5_33: "egcd_depth 5 33 = 5"
  by code_simp

lemma egcd_depth_66_33: "egcd_depth 66 33 = 3"
  by code_simp





lemma not_coprime_65537_big: "\<not> coprime (65537::int) ((917519 - 1) * (524309 - 1))"
  by code_simp

section \<open>The claims\<close>

text \<open>
  C1. The round trip does not hold for every valid key pair: \<open>_egcd\<close> recurses once per
  Euclidean step, and when the steps for \<open>(r, N)\<close> outnumber the frames that are left,
  blinding and signing return but \<open>unblind_signature\<close> raises RecursionError, so that no
  signature reaches \<open>verify\<close>.
\<close>

theorem round_trip_recursion_error:
  assumes "valid_keypair p q (e, N) (d, N')" and "frames < egcd_depth r N"
  shows "\<exists>ctx bs.
     blind_message sha256_digest (new_owner (e, N)) msg (Some r) rnd = Some (Inr ctx) \<and>
     sign_blinded (new_signer (d, N')) (blinded_msg ctx) = Inr bs \<and>
     unblind_signature frames (new_owner (e, N)) bs (blind_r ctx) = Inl RecursionError"
proof -
  note k = valid_keypair_owner[OF assms(1)]
  let ?m = "message_hash sha256_digest msg"
  have b: "blind_message sha256_digest (new_owner (e, N)) msg (Some r) rnd =
       Some (Inr \<lparr>blinded_msg = (?m * r ^ nat e) mod N, blind_r = r, original_hash = ?m\<rparr>)"
    using blind_message_supplied[of "new_owner (e, N)" sha256_digest msg r rnd] k by simp
  have s: "sign_blinded (new_signer (d, N')) ((?m * r ^ nat e) mod N) =
       Inr (((?m * r ^ nat e) mod N) ^ nat d mod N)"
    using sign_blinded_eq[of "new_signer (d, N')" "(?m * r ^ nat e) mod N"] k by simp
  have u: "unblind_signature frames (new_owner (e, N))
       (((?m * r ^ nat e) mod N) ^ nat d mod N) r = Inl RecursionError"
    using unblind_beyond[of frames r "new_owner (e, N)"] assms(2) k by simp
  from b s u show ?thesis by simp
qed

theorem round_trip_recursion_error_witness:
  "valid_keypair 3 11 (7, 33) (3, 33) \<and> (3::nat) < egcd_depth 5 33 \<and>
   (\<exists>ctx bs.
     blind_message id (new_owner (7, 33)) (Str ''vote'') (Some 5) (sconst 0) = Some (Inr ctx) \<and>
     sign_blinded (new_signer (3, 33)) (blinded_msg ctx) = Inr bs \<and>
     unblind_signature 3 (new_owner (7, 33)) bs (blind_r ctx) = Inl RecursionError)"
  using round_trip_recursion_error[where frames = 3 and r = 5 and sha256_digest = id
      and msg = "Str ''vote''" and rnd = "sconst 0", OF toy_keypair]
  by (simp add: toy_keypair egcd_depth_5_33)

text \<open>
  C2. The unblinding identity does not hold for every valid key pair and every factor
  coprime to \<open>N\<close>: when the Euclidean steps for \<open>(r, N)\<close> outnumber the frames that are
  left, \<open>unblind_signature\<close> raises RecursionError on every blind signature, while
  \<open>pow(digest(message), d, N)\<close> is a number.
\<close>

theorem unblinding_recursion_error:
  assumes "valid_keypair p q (e, N) (d, N')" and "frames < egcd_depth r N"
  shows "unblind_signature frames (new_owner (e, N)) blinded_signature r = Inl RecursionError \<and>
     py_pow (message_hash sha256_digest msg) d N =
       Inr (message_hash sha256_digest msg ^ nat d mod N)"
proof -
  note k = valid_keypair_owner[OF assms(1)]
  have "unblind_signature frames (new_owner (e, N)) blinded_signature r = Inl RecursionError"
    using unblind_beyond[of frames r "new_owner (e, N)"] assms(2) k by simp
  moreover have "py_pow (message_hash sha256_digest msg) d N =
       Inr (message_hash sha256_digest msg ^ nat d mod N)"
    using k by (simp add: py_pow_nonneg)
  ultimately show ?thesis by simp
qed

theorem unblinding_recursion_error_witness:
  "valid_keypair 3 11 (7, 33) (3, 33) \<and> (4::nat) < egcd_depth 5 33 \<and>
   unblind_signature 4 (new_owner (7, 33)) 25 5 = Inl RecursionError \<and>
   py_pow (message_hash id (Str ''vote'')) 3 33 = Inr 5"
  using unblinding_recursion_error[where frames = 4 and r = 5 and sha256_digest = id
      and msg = "Str ''vote''" and blinded_signature = 25, OF toy_keypair]
  by (simp add: toy_keypair egcd_depth_5_33 hash_vote)

text \<open>
  C3, as amended. For \<open>a \<ge> 0\<close> and \<open>m > 0\<close> whose Euclidean recursion fits the frames that
  are left: when \<open>gcd(a, m) = 1\<close>, \<open>_modinv(a, m)\<close> returns an \<open>x\<close> of \<open>[0, m)\<close> with
  \<open>(a\<cdot>x) % m = 1 % m\<close> (which is 1 as soon as \<open>m > 1\<close>), and it raises ValueError exactly when
  \<open>gcd(a, m) \<noteq> 1\<close>. It is a function of its arguments.
\<close>

theorem modinv_correct:
  "0 \<le> a \<Longrightarrow> 0 < m \<Longrightarrow> egcd_depth a m \<le> frames \<Longrightarrow>
     (gcd a m = 1 \<longrightarrow>
        (\<exists>x. modinv frames a m = Inr x \<and> 0 \<le> x \<and> x < m \<and> (a * x) mod m = 1 mod m)) \<and>
     (gcd a m \<noteq> 1 \<longleftrightarrow> modinv frames a m = Inl ValueError)"
  using modinv_coprime[of a m frames] modinv_not_coprime_within[of a m frames] by auto

theorem modinv_correct_witness:
  "(0::int) \<le> 3 \<and> (0::int) < 7 \<and> egcd_depth 3 7 \<le> 1000 \<and> gcd (3::int) 7 = 1 \<and>
   modinv 1000 3 7 = Inr 5 \<and> (3 * 5) mod 7 = (1::int) \<and>
   (0::int) \<le> 4 \<and> (0::int) < 6 \<and> egcd_depth 4 6 \<le> 1000 \<and> gcd (4::int) 6 \<noteq> 1 \<and>
   modinv 1000 4 6 = Inl ValueError"
  using modinv_correct[of 3 7 1000] modinv_correct[of 4 6 1000] modinv_3_7 modinv_4_6
  by (simp add: egcd_depth_3_7 egcd_depth_4_6)

text \<open>
  The claim as stated fails on both sides of the amendment, with a thousand frames to
  spare: \<open>-1\<close> is coprime to 5 and \<open>_modinv(-1, 5)\<close> raises, because \<open>_egcd\<close> returns \<open>-1\<close> as
  first component; 0 is coprime to 1 and \<open>_modinv(0, 1)\<close> returns 0, while \<open>(0 \<cdot> 0) % 1\<close> is 0
  and not 1.
\<close>

theorem modinv_claim_counterexample:
  "gcd (- 1 :: int) 5 = 1 \<and> modinv 1000 (- 1) 5 = Inl ValueError \<and>
   gcd (0 :: int) 1 = 1 \<and> modinv 1000 0 1 = Inr 0 \<and> (0 * 0) mod (1 :: int) \<noteq> 1"
  by code_simp

text \<open>
  C4. For a public key with \<open>N \<noteq> 0\<close> and \<open>e \<ge> 0\<close>: with a supplied factor \<open>r\<close>, \<open>blind_message\<close>
  returns the digest \<open>m\<close>, the factor and \<open>(m \<cdot> r^e) mod N\<close>; when the factor is sampled, every
  returned dictionary satisfies the same formula with a factor of \<open>[2, N-1]\<close> that is coprime
  to \<open>N\<close>, and a dictionary is returned as soon as some draw of the generator is coprime
  to \<open>N\<close>.
\<close>

theorem blinding_formula:
  assumes "owner_N self \<noteq> 0" and "0 \<le> owner_e self"
  shows
    "blind_message sha256_digest self msg (Some r) rnd =
       Some (Inr \<lparr>blinded_msg = (message_hash sha256_digest msg * r ^ nat (owner_e self)) mod owner_N self,
                 blind_r = r, original_hash = message_hash sha256_digest msg\<rparr>) \<and>
     (\<forall>ctx. blind_message sha256_digest self msg None rnd = Some (Inr ctx) \<longrightarrow>
        blinded_msg ctx =
          (message_hash sha256_digest msg * blind_r ctx ^ nat (owner_e self)) mod owner_N self \<and>
        original_hash ctx = message_hash sha256_digest msg \<and>
        2 \<le> blind_r ctx \<and> blind_r ctx \<le> owner_N self - 1 \<and>
        gcd (blind_r ctx) (owner_N self) = 1) \<and>
     (3 \<le> owner_N self \<and> coprime (draw (owner_N self) (rnd !! n)) (owner_N self) \<longrightarrow>
        (\<exists>ctx. blind_message sha256_digest self msg None rnd = Some (Inr ctx)))"
proof (intro conjI allI impI)
  show "blind_message sha256_digest self msg (Some r) rnd =
       Some (Inr \<lparr>blinded_msg = (message_hash sha256_digest msg * r ^ nat (owner_e self)) mod owner_N self,
                 blind_r = r, original_hash = message_hash sha256_digest msg\<rparr>)"
    by (rule blind_message_supplied[OF assms])
next
  fix ctx
  assume "blind_message sha256_digest self msg None rnd = Some (Inr ctx)"
  from blind_message_sampled_result[OF this] obtain r' where
    s: "sample_r (owner_N self) rnd = Some (Inr r')" and
    b: "blind_with self (message_hash sha256_digest msg) r' = Inr ctx" by blast
  from b have ctx: "ctx = \<lparr>blinded_msg = (message_hash sha256_digest msg * r' ^ nat (owner_e self)) mod owner_N self,
                 blind_r = r', original_hash = message_hash sha256_digest msg\<rparr>"
    by (simp add: blind_with_eq[OF assms])
  from sample_r_result[OF s] have r': "2 \<le> r'" "r' \<le> owner_N self - 1" "coprime r' (owner_N self)"
    by auto
  show "blinded_msg ctx =
          (message_hash sha256_digest msg * blind_r ctx ^ nat (owner_e self)) mod owner_N self"
    by (simp add: ctx)
  show "original_hash ctx = message_hash sha256_digest msg" by (simp add: ctx)
  show "2 \<le> blind_r ctx" using r' by (simp add: ctx)
  show "blind_r ctx \<le> owner_N self - 1" using r' by (simp add: ctx)
  show "gcd (blind_r ctx) (owner_N self) = 1" using r'(3) by (simp add: ctx coprime_iff_gcd_eq_1)
next
  assume "3 \<le> owner_N self \<and> coprime (draw (owner_N self) (rnd !! n)) (owner_N self)"
  then obtain r' where "sample_r (owner_N self) rnd = Some (Inr r')"
    using sample_r_exists[of "owner_N self" rnd n] by blast
  then show "\<exists>ctx. blind_message sha256_digest self msg None rnd = Some (Inr ctx)"
    by (simp add: blind_message_sampled_Some blind_with_eq[OF assms])
qed

theorem blinding_formula_witness:
  "owner_N (new_owner (7, 33)) \<noteq> 0 \<and> 0 \<le> owner_e (new_owner (7, 33)) \<and>
   blind_message id (new_owner (7, 33)) (Str ''vote'') (Some 5) (sconst 0) =
     Some (Inr \<lparr>blinded_msg = 31, blind_r = 5, original_hash = 1987015781\<rparr>) \<and>
   (3::int) \<le> 33 \<and> coprime (draw 33 (sconst 0 !! 0)) 33 \<and>
   (\<exists>ctx. blind_message id (new_owner (7, 33)) (Str ''vote'') None (sconst 0) = Some (Inr ctx) \<and>
      blinded_msg ctx = (1987015781 * blind_r ctx ^ 7) mod 33 \<and>
      2 \<le> blind_r ctx \<and> blind_r ctx \<le> 32 \<and> gcd (blind_r ctx) 33 = 1)"
  using blinding_formula[of "new_owner (7, 33)" id "Str ''vote''" 5 "sconst 0" 0]
  by (simp add: new_owner_def hash_vote draw_33_0) blast

text \<open>
  C5. For a public key with \<open>N \<noteq> 0\<close> and \<open>e \<ge> 0\<close>, every message and every integer
  signature, \<open>verify\<close> returns the boolean \<open>signature^e mod N = m mod N\<close>, where \<open>m\<close> is the
  recomputed digest; a mismatch is the value \<open>False\<close> and never an exception.
\<close>

theorem verify_is_boolean:
  "owner_N self \<noteq> 0 \<Longrightarrow> 0 \<le> owner_e self \<Longrightarrow>
   verify sha256_digest self msg signature =
     Inr (signature ^ nat (owner_e self) mod owner_N self =
          message_hash sha256_digest msg mod owner_N self)"
  by (rule verify_eq)

theorem verify_is_boolean_witness:
  "owner_N (new_owner (7, 33)) \<noteq> 0 \<and> 0 \<le> owner_e (new_owner (7, 33)) \<and>
   verify id (new_owner (7, 33)) (Str ''vote'') 3 = Inr False \<and>
   verify id (new_owner (7, 33)) (Str ''vote'') 5 = Inr True"
  using verify_is_boolean[of "new_owner (7, 33)" id "Str ''vote''" 3]
    verify_is_boolean[of "new_owner (7, 33)" id "Str ''vote''" 5]
  by (simp add: new_owner_def hash_vote)




text \<open>
  C7, as amended. For a private key with \<open>N \<noteq> 0\<close> and \<open>d \<ge> 0\<close>, \<open>sign_blinded\<close> returns
  \<open>blinded_value^d mod N\<close> for every integer \<open>blinded_value\<close>, inside \<open>[0, N)\<close> or not: it
  inspects nothing and rejects nothing.
\<close>

theorem sign_blinded_total:
  "signer_N self \<noteq> 0 \<Longrightarrow> 0 \<le> signer_d self \<Longrightarrow>
   sign_blinded self blinded_value =
     Inr (blinded_value ^ nat (signer_d self) mod signer_N self)"
  by (rule sign_blinded_eq)

theorem sign_blinded_total_witness:
  "signer_N (new_signer (3, 33)) \<noteq> 0 \<and> 0 \<le> signer_d (new_signer (3, 33)) \<and>
   sign_blinded (new_signer (3, 33)) 25 = Inr 16 \<and>
   sign_blinded (new_signer (3, 33)) (- 2) = Inr 25"
  using sign_blinded_total[of "new_signer (3, 33)" 25]
    sign_blinded_total[of "new_signer (3, 33)" "- 2"]
  by (simp add: new_signer_def)

text \<open>
  The claim as stated fails: 40 is outside \<open>[0, 33)\<close> and the signer with the private key
  \<open>(3, 33)\<close> signs it all the same.
\<close>

theorem sign_blinded_range_counterexample:
  "\<not> (0 \<le> (40::int) \<and> (40::int) < 33) \<and> sign_blinded (new_signer (3, 33)) 40 = Inr 13"
  by code_simp

text \<open>
  C8, as amended. The search has no retry bound and no failure of its own. For \<open>N \<ge> 3\<close>,
  \<open>blind_message\<close> without a factor fails to return exactly when no draw of the generator
  is ever coprime to \<open>N\<close>; for \<open>N < 3\<close> the range of \<open>randint\<close> is empty and the call
  raises ValueError at once.
\<close>

theorem blind_search_unbounded:
  "(owner_N self < 3 \<longrightarrow>
      blind_message sha256_digest self msg None rnd = Some (Inl ValueError)) \<and>
   (3 \<le> owner_N self \<longrightarrow>
      (blind_message sha256_digest self msg None rnd = None) =
      (\<forall>n. \<not> coprime (draw (owner_N self) (rnd !! n)) (owner_N self)))"
proof (intro conjI impI)
  assume "owner_N self < 3"
  then show "blind_message sha256_digest self msg None rnd = Some (Inl ValueError)"
    by (simp add: blind_message_def Let_def sample_r_unfold1)
next
  assume N: "3 \<le> owner_N self"
  show "(blind_message sha256_digest self msg None rnd = None) =
      (\<forall>n. \<not> coprime (draw (owner_N self) (rnd !! n)) (owner_N self))"
  proof
    assume "blind_message sha256_digest self msg None rnd = None"
    then have "sample_r (owner_N self) rnd = None" by (simp add: blind_message_sampled_None)
    then show "\<forall>n. \<not> coprime (draw (owner_N self) (rnd !! n)) (owner_N self)"
      using sample_r_exists[OF N] by fastforce
  next
    assume "\<forall>n. \<not> coprime (draw (owner_N self) (rnd !! n)) (owner_N self)"
    from sample_r_never[OF N this] show "blind_message sha256_digest self msg None rnd = None"
      by (simp add: blind_message_sampled_None)
  qed
qed

theorem blind_search_unbounded_witness:
  "owner_N (new_owner (7, 2)) < 3 \<and>
   blind_message id (new_owner (7, 2)) (Str ''vote'') None (sconst 0) = Some (Inl ValueError) \<and>
   3 \<le> owner_N (new_owner (7, 33)) \<and>
   blind_message id (new_owner (7, 33)) (Str ''vote'') None (sconst 0) \<noteq> None"
  using blind_search_unbounded[of "new_owner (7, 2)" id "Str ''vote''" "sconst 0"]
    blind_search_unbounded[of "new_owner (7, 33)" id "Str ''vote''" "sconst 0"]
  by (simp add: new_owner_def draw_33_0)

text \<open>
  The claim as stated fails: with the modulus 33 and a generator whose every draw selects 3,
  which shares the factor 3 with 33, the search never ends and \<open>blind_message\<close> does not
  return.
\<close>

theorem blind_search_counterexample:
  "blind_message id (new_owner (7, 33)) (Str ''vote'') None (sconst 1) = None"
proof -
  have "sample_r 33 (sconst 1) = None"
    by (rule sample_r_never) (simp_all add: draw_33_1 del: One_nat_def)
  then show ?thesis by (simp add: blind_message_sampled_None new_owner_def)
qed

text \<open>
  C9, as amended. For all \<open>p, q > 1\<close> returned by the two draws, in particular for every pair of primes:
  when \<open>gcd(65537, (p-1)(q-1)) = 1\<close>, \<open>generate_rsa_keys\<close> returns the public key
  \<open>(65537, p\<cdot>q)\<close> and the private key \<open>(d, p\<cdot>q)\<close> with \<open>d\<close> the inverse of 65537 modulo
  \<open>(p-1)(q-1)\<close>, so that \<open>e\<cdot>d \<equiv> 1 (mod (p-1)(q-1))\<close>, and the pair is a valid key pair when
  \<open>p\<close> and \<open>q\<close> are distinct primes; otherwise the ValueError of the inverse computation
  reaches the caller: there is no test of the gcd, no retry and no error of key generation.
\<close>

theorem generate_rsa_keys_correct:
  assumes "1 < p" and "1 < q"
  shows
    "(coprime 65537 ((p - 1) * (q - 1)) \<longrightarrow>
        (\<exists>d. generate_rsa_keys p q = Inr ((65537, p * q), (d, p * q)) \<and>
             inverse_mod 65537 ((p - 1) * (q - 1)) = Inr d \<and>
             0 \<le> d \<and> d < (p - 1) * (q - 1) \<and>
             (65537 * d) mod ((p - 1) * (q - 1)) = 1 mod ((p - 1) * (q - 1)) \<and>
             (is_prime p \<and> is_prime q \<and> p \<noteq> q \<longrightarrow>
                valid_keypair p q (65537, p * q) (d, p * q)))) \<and>
     (\<not> coprime 65537 ((p - 1) * (q - 1)) \<longrightarrow> generate_rsa_keys p q = Inl ValueError)"
proof (intro conjI impI)
  let ?phi = "(p - 1) * (q - 1)"
  from assms have pq: "1 < p" "1 < q" by simp_all
  then have phi: "0 < ?phi" by simp
  {
    assume "coprime 65537 ?phi"
    from inverse_mod_coprime[OF phi this] obtain d where
      d: "inverse_mod 65537 ?phi = Inr d" "0 \<le> d" "d < ?phi" "(65537 * d) mod ?phi = 1 mod ?phi"
      by blast
    have g: "generate_rsa_keys p q = Inr ((65537, p * q), (d, p * q))"
      using d(1) by (simp add: generate_rsa_keys_def Let_def)
    have "valid_keypair p q (65537, p * q) (d, p * q)"
      if pr: "is_prime p \<and> is_prime q \<and> p \<noteq> q"
    proof -
      from pr have ne: "p \<noteq> q" by simp
      have "2 \<le> p" "2 \<le> q" using pq by simp_all
      with ne have "3 \<le> p \<or> 3 \<le> q" by auto
      then have "1 < ?phi"
      proof
        assume "3 \<le> p"
        then have "2 * 1 \<le> (p - 1) * (q - 1)" using pq by (intro mult_mono) auto
        then show ?thesis by simp
      next
        assume "3 \<le> q"
        then have "1 * 2 \<le> (p - 1) * (q - 1)" using pq by (intro mult_mono) auto
        then show ?thesis by simp
      qed
      with d(4) have one: "(65537 * d) mod ?phi = 1" by simp
      have "d \<noteq> 0" using one by auto
      with d(2) have "0 < d" by simp
      with one pr show ?thesis by (simp add: valid_keypair_def)
    qed
    with g d show "\<exists>d. generate_rsa_keys p q = Inr ((65537, p * q), (d, p * q)) \<and>
             inverse_mod 65537 ?phi = Inr d \<and> 0 \<le> d \<and> d < ?phi \<and>
             (65537 * d) mod ?phi = 1 mod ?phi \<and>
             (is_prime p \<and> is_prime q \<and> p \<noteq> q \<longrightarrow>
                valid_keypair p q (65537, p * q) (d, p * q))"
      by blast
  }
  {
    assume "\<not> coprime 65537 ?phi"
    from inverse_mod_not_coprime[OF phi this]
    show "generate_rsa_keys p q = Inl ValueError" by (simp add: generate_rsa_keys_def Let_def)
  }
qed

theorem generate_rsa_keys_correct_witness:
  "(1::int) < 3 \<and> (1::int) < 11 \<and> coprime (65537::int) ((3 - 1) * (11 - 1)) \<and>
   is_prime 3 \<and> is_prime 11 \<and> (3::int) \<noteq> 11 \<and>
   generate_rsa_keys 3 11 = Inr ((65537, 33), (13, 33)) \<and>
   (65537 * 13) mod ((3 - 1) * (11 - 1)) = (1::int) \<and>
   valid_keypair 3 11 (65537, 33) (13, 33) \<and>
   (1::int) < 917519 \<and> (1::int) < 524309 \<and>
   \<not> coprime (65537::int) ((917519 - 1) * (524309 - 1)) \<and>
   generate_rsa_keys 917519 524309 = Inl ValueError"
  using generate_rsa_keys_correct[of 3 11] generate_rsa_keys_correct[of 917519 524309]
    not_coprime_65537_big
  by (simp add: is_prime_3 is_prime_11 coprime_65537_20 inverse_mod_65537_20)

text \<open>
  The claim as stated fails: 917519 and 524309 are primes of 20 bits, 65537 divides
  \<open>917519 - 1\<close>, and the call ends in the ValueError that the inverse raises.
\<close>

theorem generate_rsa_keys_counterexample:
  "\<not> coprime (65537::int) ((917519 - 1) * (524309 - 1)) \<and>
   generate_rsa_keys 917519 524309 = Inl ValueError"
proof -
  have "generate_rsa_keys 917519 524309 = Inl ValueError"
    using inverse_mod_not_coprime[of "(917519 - 1) * (524309 - 1)" 65537] not_coprime_65537_big
    by (simp add: generate_rsa_keys_def Let_def)
  with not_coprime_65537_big show ?thesis by simp
qed

text \<open>
  C10. For a public key with \<open>N \<noteq> 0\<close> and \<open>e \<ge> 0\<close> and every integer \<open>r\<close> that the caller
  supplies, coprime to \<open>N\<close> or not, inside \<open>[2, N-1]\<close> or not, \<open>blind_message\<close> returns
  normally with \<open>blinded = (digest \<cdot> r^e) mod N\<close>. A factor that is not coprime to \<open>N\<close> is
  found only by \<open>unblind_signature\<close>, which raises on it whatever the signature: ValueError
  when the Euclidean recursion fits the frames that are left.
\<close>

theorem supplied_factor_not_validated:
  assumes "owner_N self \<noteq> 0" and "0 \<le> owner_e self"
  shows
    "blind_message sha256_digest self msg (Some r) rnd =
       Some (Inr \<lparr>blinded_msg = (message_hash sha256_digest msg * r ^ nat (owner_e self)) mod owner_N self,
                 blind_r = r, original_hash = message_hash sha256_digest msg\<rparr>) \<and>
     (\<not> coprime r (owner_N self) \<longrightarrow>
        (\<exists>err. unblind_signature frames self blinded_signature r = Inl err) \<and>
        (egcd_depth r (owner_N self) \<le> frames \<longrightarrow>
           unblind_signature frames self blinded_signature r = Inl ValueError))"
  using blind_message_supplied[OF assms] unblind_not_coprime unblind_not_coprime_within
  by simp

theorem supplied_factor_not_validated_witness:
  "owner_N (new_owner (7, 33)) \<noteq> 0 \<and> 0 \<le> owner_e (new_owner (7, 33)) \<and>
   \<not> coprime (66::int) (owner_N (new_owner (7, 33))) \<and>
   egcd_depth 66 (owner_N (new_owner (7, 33))) \<le> 1000 \<and>
   blind_message id (new_owner (7, 33)) (Str ''vote'') (Some 66) (sconst 0) =
     Some (Inr \<lparr>blinded_msg = 0, blind_r = 66, original_hash = 1987015781\<rparr>) \<and>
   unblind_signature 1000 (new_owner (7, 33)) 0 66 = Inl ValueError"
  using supplied_factor_not_validated[of "new_owner (7, 33)" id "Str ''vote''" 66 "sconst 0"
      1000 0]
  by (simp add: new_owner_def hash_vote not_coprime_66_33 egcd_depth_66_33)

end
